theory Spec2Isabelle
  imports Main "HOL-Library.Word"
begin

section \<open>The TCP echo demo (demos/tcp_demo.cc)\<close>

text \<open>
  The demo is written in continuation-passing style on a single-threaded reactor:
  \<^verbatim>\<open>_listener.accept().then(...)\<close> and \<^verbatim>\<open>tcp_conn.wait_for_data().then(...)\<close>
  register a continuation on a future and return at once; the reactor later resolves the
  future and runs the continuation to its end, one continuation at a time. The model is
  that reactor: a state holding the objects allocated with \<^verbatim>\<open>new\<close>, the futures
  that are not resolved yet, and the calls the program has made on the network stack, in
  order. The network stack (\<^verbatim>\<open>seastar/net/tcp.hh\<close>) is the environment: it decides
  when a future resolves, whether with a value or an exception, and which packet
  \<^verbatim>\<open>read()\<close> returns. A failure of the transport reaches the program through a
  future: that of \<^verbatim>\<open>wait_for_data\<close> on the read side, that of \<^verbatim>\<open>send\<close> on the
  write side, that of \<^verbatim>\<open>accept\<close> for the listener; \<^verbatim>\<open>read()\<close> itself returns a
  packet.
\<close>

subsection \<open>Data\<close>

type_synonym byte = "8 word"

text \<open>A packet, as far as the demo looks at it: its bytes; \<^verbatim>\<open>p.len()\<close> is their number.\<close>

type_synonym packet = "byte list"

text \<open>A \<^verbatim>\<open>tcp::connection\<close> value handed out by the listener.\<close>

type_synonym tcp_connection = nat

text \<open>The address of a \<^verbatim>\<open>tcp_test::connection\<close> object: its index in the heap.\<close>

type_synonym addr = nat

text \<open>\<^verbatim>\<open>struct connection { tcp::connection tcp_conn; ... }\<close>\<close>

record connection =
  tcp_conn :: tcp_connection

text \<open>
  The calls the program makes, as they appear in the source. A call on a connection
  carries the address of the handler object whose \<^verbatim>\<open>tcp_conn\<close> member it is made on
  (\<^verbatim>\<open>this\<close>); \<open>Read\<close> also carries the packet that \<^verbatim>\<open>read()\<close> returned and
  \<open>Send\<close> the packet passed to \<^verbatim>\<open>send\<close>.
\<close>

datatype call =
    Listen nat
  | Accept
  | Wait_for_data addr
  | Read addr packet
  | Print_read_bytes nat
  | Send addr packet
  | Close_write addr

text \<open>
  The futures that are not resolved yet. \<open>Accept_future\<close> and \<open>Wait_future this\<close>
  have a continuation attached by \<^verbatim>\<open>.then\<close>; \<open>Send_future this\<close> is the future
  returned by \<^verbatim>\<open>tcp_conn.send\<close>, which the source discards with \<^verbatim>\<open>(void)\<close>:
  nothing runs when it resolves.
\<close>

datatype future =
    Accept_future
  | Wait_future addr
  | Send_future addr

text \<open>
  What the environment does: it resolves one pending future, with a value or with an
  exception. \<open>Data_ready this p\<close> resolves the \<^verbatim>\<open>wait_for_data\<close> future of the
  handler at \<open>this\<close>, and \<open>p\<close> is what the \<^verbatim>\<open>read()\<close> in the continuation then
  returns (empty when the peer has closed its side).
\<close>

datatype event =
    Accept_ok tcp_connection
  | Accept_failed
  | Data_ready addr packet
  | Wait_failed addr
  | Send_done addr
  | Send_failed addr

record reactor =
  heap :: "connection list"
  pending :: "future list"
  trace :: "call list"

subsection \<open>The program\<close>

text \<open>
  \<^verbatim>\<open>connection::run()\<close>: calls \<^verbatim>\<open>tcp_conn.wait_for_data()\<close> and attaches the
  continuation; returns without waiting.
\<close>

definition connection_run :: "addr \<Rightarrow> reactor \<Rightarrow> reactor" where
  "connection_run this s =
     s\<lparr>trace := trace s @ [Wait_for_data this],
       pending := pending s @ [Wait_future this]\<rparr>"

text \<open>
  The continuation in \<^verbatim>\<open>connection::run()\<close>:
  \<^verbatim>\<open>
  auto p = tcp_conn.read();
  if (!p.len()) { (void)tcp_conn.close_write(); return; }
  fmt::print("read {:d} bytes\n", p.len());
  (void)tcp_conn.send(std::move(p));
  run();
  \<close>
  The result of \<^verbatim>\<open>close_write\<close> is discarded and nothing in the program depends on
  it, so it leaves no future in the model.
\<close>

definition connection_run_then :: "addr \<Rightarrow> packet \<Rightarrow> reactor \<Rightarrow> reactor" where
  "connection_run_then this p s =
     (let s1 = s\<lparr>trace := trace s @ [Read this p]\<rparr> in
      if length p = 0 then s1\<lparr>trace := trace s1 @ [Close_write this]\<rparr>
      else
        let s2 = s1\<lparr>trace := trace s1 @ [Print_read_bytes (length p)]\<rparr>;
            s3 = s2\<lparr>trace := trace s2 @ [Send this p],
                    pending := pending s2 @ [Send_future this]\<rparr>
        in connection_run this s3)"

text \<open>
  \<^verbatim>\<open>tcp_test::run()\<close>: calls \<^verbatim>\<open>_listener.accept()\<close> and attaches the
  continuation.
\<close>

definition tcp_test_run :: "reactor \<Rightarrow> reactor" where
  "tcp_test_run s =
     s\<lparr>trace := trace s @ [Accept],
       pending := pending s @ [Accept_future]\<rparr>"

text \<open>
  The continuation in \<^verbatim>\<open>tcp_test::run()\<close>:
  \<^verbatim>\<open>
  (new connection(std::move(conn)))->run();
  run();
  \<close>
  \<^verbatim>\<open>new\<close> puts the object at a fresh address. The source has no \<^verbatim>\<open>delete\<close>, so
  no operation of the model takes an object off the heap.
\<close>

definition tcp_test_run_then :: "tcp_connection \<Rightarrow> reactor \<Rightarrow> reactor" where
  "tcp_test_run_then conn s =
     (let this = length (heap s);
          s1 = s\<lparr>heap := heap s @ [\<lparr>tcp_conn = conn\<rparr>]\<rparr>;
          s2 = connection_run this s1
      in tcp_test_run s2)"

text \<open>
  \<^verbatim>\<open>main\<close>: the constructor of \<^verbatim>\<open>tcp_test\<close> listens on port 10000, and once the
  engine has started \<^verbatim>\<open>tt.run()\<close> is called.
\<close>

definition main_started :: reactor where
  "main_started = tcp_test_run \<lparr>heap = [], pending = [], trace = [Listen 10000]\<rparr>"

subsection \<open>The reactor\<close>

text \<open>
  Modelled from the spec: the futures and the reactor of the framework
  (\<^verbatim>\<open>seastar/core/future.hh\<close>, \<^verbatim>\<open>seastar/core/reactor.hh\<close>) are not among the
  sources. By the spec, each asynchronous step registers what runs next and suspends, on
  one thread with no preemption; the suspension points are waiting for a connection and
  waiting for data, and a write is issued without being waited on. Resolving a future
  takes it off the pending list.
\<close>

definition resolve :: "future \<Rightarrow> reactor \<Rightarrow> reactor" where
  "resolve f s = s\<lparr>pending := remove1 f (pending s)\<rparr>"

text \<open>
  Modelled from the spec: what \<^verbatim>\<open>.then\<close> does when its future resolves, the
  framework's code being absent. A future resolved with a value runs its continuation to
  the end; a future resolved with an exception skips it (\<^verbatim>\<open>.then\<close> passes the
  exception on to the future it returned, which the source discards with \<^verbatim>\<open>(void)\<close>).
  The discarded future of \<^verbatim>\<open>send\<close> has no continuation: resolving it, either way,
  runs nothing. An event for a future that is not pending cannot happen: \<open>None\<close>.
\<close>

fun deliver :: "reactor \<Rightarrow> event \<Rightarrow> reactor option" where
  "deliver s (Accept_ok conn) =
     (if Accept_future \<in> set (pending s)
      then Some (tcp_test_run_then conn (resolve Accept_future s)) else None)"
| "deliver s Accept_failed =
     (if Accept_future \<in> set (pending s)
      then Some (resolve Accept_future s) else None)"
| "deliver s (Data_ready this p) =
     (if Wait_future this \<in> set (pending s)
      then Some (connection_run_then this p (resolve (Wait_future this) s)) else None)"
| "deliver s (Wait_failed this) =
     (if Wait_future this \<in> set (pending s)
      then Some (resolve (Wait_future this) s) else None)"
| "deliver s (Send_done this) =
     (if Send_future this \<in> set (pending s)
      then Some (resolve (Send_future this) s) else None)"
| "deliver s (Send_failed this) =
     (if Send_future this \<in> set (pending s)
      then Some (resolve (Send_future this) s) else None)"

fun exec :: "reactor \<Rightarrow> event list \<Rightarrow> reactor option" where
  "exec s [] = Some s"
| "exec s (e # es) = (case deliver s e of None \<Rightarrow> None | Some s' \<Rightarrow> exec s' es)"

subsection \<open>Reading a trace\<close>

text \<open>The calls made on the connection of the handler at \<open>this\<close>.\<close>

fun on_conn :: "addr \<Rightarrow> call \<Rightarrow> bool" where
  "on_conn this (Wait_for_data h) = (h = this)"
| "on_conn this (Read h p) = (h = this)"
| "on_conn this (Send h p) = (h = this)"
| "on_conn this (Close_write h) = (h = this)"
| "on_conn this (Listen port) = False"
| "on_conn this Accept = False"
| "on_conn this (Print_read_bytes n) = False"

text \<open>The packets read from, and sent on, the connection of the handler at \<open>this\<close>, in order.\<close>

fun received :: "addr \<Rightarrow> call list \<Rightarrow> packet list" where
  "received this [] = []"
| "received this (Read h p # t) = (if h = this then p # received this t else received this t)"
| "received this (c # t) = received this t"

fun sent :: "addr \<Rightarrow> call list \<Rightarrow> packet list" where
  "sent this [] = []"
| "sent this (Send h p # t) = (if h = this then p # sent this t else sent this t)"
| "sent this (c # t) = sent this t"

text \<open>How many futures of one kind are unresolved.\<close>

definition outstanding :: "reactor \<Rightarrow> future \<Rightarrow> nat" where
  "outstanding s f = count_list (pending s) f"

subsection \<open>Predicates on reactor states\<close>

text \<open>
  At most one \<^verbatim>\<open>accept\<close> and, for each handler, at most one \<^verbatim>\<open>wait_for_data\<close>
  is unresolved, and every unresolved \<^verbatim>\<open>wait_for_data\<close> belongs to an object on the heap.
\<close>

definition serialized :: "reactor \<Rightarrow> bool" where
  "serialized s \<longleftrightarrow>
     count_list (pending s) Accept_future \<le> 1 \<and>
     (\<forall>h. count_list (pending s) (Wait_future h) \<le> 1) \<and>
     (\<forall>h. Wait_future h \<in> set (pending s) \<longrightarrow> h < length (heap s))"

text \<open>
  The handler at \<open>h\<close> exists and has no continuation left: nothing will run it again.
\<close>

definition finished :: "addr \<Rightarrow> reactor \<Rightarrow> bool" where
  "finished h s \<longleftrightarrow> Wait_future h \<notin> set (pending s) \<and> h < length (heap s)"

text \<open>
  In a trace, every \<open>Send\<close> stands in its place in the continuation: right after the
  \<open>Read\<close> that returned its packet and the print, right before the next
  \<open>Wait_for_data\<close> of the same handler.
\<close>

definition echo_ordered :: "call list \<Rightarrow> bool" where
  "echo_ordered t \<longleftrightarrow>
     (\<forall>i h p. i < length t \<and> t ! i = Send h p \<longrightarrow>
        2 \<le> i \<and> t ! (i - 2) = Read h p \<and> t ! (i - 1) = Print_read_bytes (length p) \<and>
        Suc i < length t \<and> t ! Suc i = Wait_for_data h)"

subsection \<open>Example executions\<close>

text \<open>
  Concrete states, written out, on which the theorems below are run. The client's payload
  is the four bytes of \<^verbatim>\<open>"ping"\<close>.
\<close>

abbreviation ping :: packet where
  "ping \<equiv> [112, 105, 110, 103]"

text \<open>After \<open>[Accept_ok 7]\<close>: one connection accepted, its handler waiting.\<close>

abbreviation one_conn :: reactor where
  "one_conn \<equiv>
     \<lparr>heap = [\<lparr>tcp_conn = 7\<rparr>],
      pending = [Wait_future 0, Accept_future],
      trace = [Listen 10000, Accept, Wait_for_data 0, Accept]\<rparr>"

text \<open>Then \<open>Data_ready 0 ping\<close>: the packet echoed, its send unresolved.\<close>

abbreviation echoed :: reactor where
  "echoed \<equiv>
     \<lparr>heap = [\<lparr>tcp_conn = 7\<rparr>],
      pending = [Accept_future, Send_future 0, Wait_future 0],
      trace = [Listen 10000, Accept, Wait_for_data 0, Accept, Read 0 ping,
              Print_read_bytes 4, Send 0 ping, Wait_for_data 0]\<rparr>"

text \<open>Then \<open>Data_ready 0 ping\<close> again.\<close>

abbreviation echoed_twice :: reactor where
  "echoed_twice \<equiv>
     \<lparr>heap = [\<lparr>tcp_conn = 7\<rparr>],
      pending = [Accept_future, Send_future 0, Send_future 0, Wait_future 0],
      trace = [Listen 10000, Accept, Wait_for_data 0, Accept, Read 0 ping,
              Print_read_bytes 4, Send 0 ping, Wait_for_data 0, Read 0 ping,
              Print_read_bytes 4, Send 0 ping, Wait_for_data 0]\<rparr>"

text \<open>\<open>echoed\<close>, then \<open>Data_ready 0 []\<close>: the peer has closed.\<close>

abbreviation echoed_closed :: reactor where
  "echoed_closed \<equiv>
     \<lparr>heap = [\<lparr>tcp_conn = 7\<rparr>],
      pending = [Accept_future, Send_future 0],
      trace = [Listen 10000, Accept, Wait_for_data 0, Accept, Read 0 ping,
              Print_read_bytes 4, Send 0 ping, Wait_for_data 0, Read 0 [],
              Close_write 0]\<rparr>"

text \<open>\<open>one_conn\<close>, then \<open>Data_ready 0 []\<close>.\<close>

abbreviation closed :: reactor where
  "closed \<equiv>
     \<lparr>heap = [\<lparr>tcp_conn = 7\<rparr>],
      pending = [Accept_future],
      trace = [Listen 10000, Accept, Wait_for_data 0, Accept, Read 0 [], Close_write 0]\<rparr>"

text \<open>\<open>closed\<close>, then \<open>[Accept_ok 9, Data_ready 1 ping]\<close>: a second connection served.\<close>

abbreviation closed_next :: reactor where
  "closed_next \<equiv>
     \<lparr>heap = [\<lparr>tcp_conn = 7\<rparr>, \<lparr>tcp_conn = 9\<rparr>],
      pending = [Accept_future, Send_future 1, Wait_future 1],
      trace = [Listen 10000, Accept, Wait_for_data 0, Accept, Read 0 [],
              Close_write 0, Wait_for_data 1, Accept, Read 1 ping,
              Print_read_bytes 4, Send 1 ping, Wait_for_data 1]\<rparr>"

text \<open>\<open>one_conn\<close>, then \<open>Accept_failed\<close>.\<close>

abbreviation no_accept :: reactor where
  "no_accept \<equiv>
     \<lparr>heap = [\<lparr>tcp_conn = 7\<rparr>],
      pending = [Wait_future 0],
      trace = [Listen 10000, Accept, Wait_for_data 0, Accept]\<rparr>"

text \<open>\<open>no_accept\<close>, then \<open>Data_ready 0 ping\<close>.\<close>

abbreviation no_accept_echoed :: reactor where
  "no_accept_echoed \<equiv>
     \<lparr>heap = [\<lparr>tcp_conn = 7\<rparr>],
      pending = [Send_future 0, Wait_future 0],
      trace = [Listen 10000, Accept, Wait_for_data 0, Accept, Read 0 ping,
              Print_read_bytes 4, Send 0 ping, Wait_for_data 0]\<rparr>"

text \<open>\<open>one_conn\<close>, then \<open>Accept_ok 9\<close>.\<close>

abbreviation two_conns :: reactor where
  "two_conns \<equiv>
     \<lparr>heap = [\<lparr>tcp_conn = 7\<rparr>, \<lparr>tcp_conn = 9\<rparr>],
      pending = [Wait_future 0, Wait_future 1, Accept_future],
      trace = [Listen 10000, Accept, Wait_for_data 0, Accept, Wait_for_data 1, Accept]\<rparr>"

text \<open>\<open>one_conn\<close>, then \<open>[Accept_ok 9, Accept_ok 11]\<close>.\<close>

abbreviation three_conns :: reactor where
  "three_conns \<equiv>
     \<lparr>heap = [\<lparr>tcp_conn = 7\<rparr>, \<lparr>tcp_conn = 9\<rparr>, \<lparr>tcp_conn = 11\<rparr>],
      pending = [Wait_future 0, Wait_future 1, Wait_future 2, Accept_future],
      trace = [Listen 10000, Accept, Wait_for_data 0, Accept, Wait_for_data 1, Accept,
              Wait_for_data 2, Accept]\<rparr>"

text \<open>\<open>echoed\<close>, then \<open>Wait_failed 0\<close>.\<close>

abbreviation wait_failed :: reactor where
  "wait_failed \<equiv>
     \<lparr>heap = [\<lparr>tcp_conn = 7\<rparr>],
      pending = [Accept_future, Send_future 0],
      trace = [Listen 10000, Accept, Wait_for_data 0, Accept, Read 0 ping,
              Print_read_bytes 4, Send 0 ping, Wait_for_data 0]\<rparr>"

text \<open>\<open>wait_failed\<close>, then \<open>[Accept_ok 9, Send_failed 0]\<close>.\<close>

abbreviation wait_failed_next :: reactor where
  "wait_failed_next \<equiv>
     \<lparr>heap = [\<lparr>tcp_conn = 7\<rparr>, \<lparr>tcp_conn = 9\<rparr>],
      pending = [Wait_future 1, Accept_future],
      trace = [Listen 10000, Accept, Wait_for_data 0, Accept, Read 0 ping,
              Print_read_bytes 4, Send 0 ping, Wait_for_data 0, Wait_for_data 1,
              Accept]\<rparr>"

text \<open>\<open>echoed\<close>, then \<open>Send_failed 0\<close>.\<close>

abbreviation send_failed :: reactor where
  "send_failed \<equiv>
     \<lparr>heap = [\<lparr>tcp_conn = 7\<rparr>],
      pending = [Accept_future, Wait_future 0],
      trace = [Listen 10000, Accept, Wait_for_data 0, Accept, Read 0 ping,
              Print_read_bytes 4, Send 0 ping, Wait_for_data 0]\<rparr>"

section \<open>Lemmas\<close>

subsection \<open>One step of the reactor\<close>

lemmas run_simps =
  main_started_def tcp_test_run_def tcp_test_run_then_def connection_run_def
  connection_run_then_def resolve_def Let_def

lemma count_list_remove1:
  "count_list (remove1 x xs) y =
     (if x = y \<and> x \<in> set xs then count_list xs y - 1 else count_list xs y)"
  by (induction xs) auto

lemma deliver_Accept_ok:
  "Accept_future \<in> set (pending s) \<Longrightarrow>
   deliver s (Accept_ok conn) =
     Some \<lparr>heap = heap s @ [\<lparr>tcp_conn = conn\<rparr>],
           pending = remove1 Accept_future (pending s) @ [Wait_future (length (heap s)), Accept_future],
           trace = trace s @ [Wait_for_data (length (heap s)), Accept]\<rparr>"
  by (simp add: tcp_test_run_then_def tcp_test_run_def connection_run_def resolve_def Let_def)

lemma deliver_Accept_failed:
  "Accept_future \<in> set (pending s) \<Longrightarrow>
   deliver s Accept_failed =
     Some \<lparr>heap = heap s, pending = remove1 Accept_future (pending s), trace = trace s\<rparr>"
  by (simp add: resolve_def)

lemma deliver_Data_ready_empty:
  "Wait_future h \<in> set (pending s) \<Longrightarrow>
   deliver s (Data_ready h []) =
     Some \<lparr>heap = heap s, pending = remove1 (Wait_future h) (pending s),
           trace = trace s @ [Read h [], Close_write h]\<rparr>"
  by (simp add: connection_run_then_def resolve_def Let_def)

lemma deliver_Data_ready_nonempty:
  "Wait_future h \<in> set (pending s) \<Longrightarrow> p \<noteq> [] \<Longrightarrow>
   deliver s (Data_ready h p) =
     Some \<lparr>heap = heap s,
           pending = remove1 (Wait_future h) (pending s) @ [Send_future h, Wait_future h],
           trace = trace s @ [Read h p, Print_read_bytes (length p), Send h p, Wait_for_data h]\<rparr>"
  by (simp add: connection_run_then_def connection_run_def resolve_def Let_def)

lemma deliver_Wait_failed:
  "Wait_future h \<in> set (pending s) \<Longrightarrow>
   deliver s (Wait_failed h) =
     Some \<lparr>heap = heap s, pending = remove1 (Wait_future h) (pending s), trace = trace s\<rparr>"
  by (simp add: resolve_def)

lemma deliver_Send_done:
  "Send_future h \<in> set (pending s) \<Longrightarrow>
   deliver s (Send_done h) =
     Some \<lparr>heap = heap s, pending = remove1 (Send_future h) (pending s), trace = trace s\<rparr>"
  by (simp add: resolve_def)

lemma deliver_Send_failed:
  "Send_future h \<in> set (pending s) \<Longrightarrow>
   deliver s (Send_failed h) =
     Some \<lparr>heap = heap s, pending = remove1 (Send_future h) (pending s), trace = trace s\<rparr>"
  by (simp add: resolve_def)

lemma deliver_cases:
  assumes "deliver s e = Some s'"
  obtains
    (accept_ok) conn where "e = Accept_ok conn" "Accept_future \<in> set (pending s)"
      "heap s' = heap s @ [\<lparr>tcp_conn = conn\<rparr>]"
      "pending s' = remove1 Accept_future (pending s) @ [Wait_future (length (heap s)), Accept_future]"
      "trace s' = trace s @ [Wait_for_data (length (heap s)), Accept]"
  | (accept_failed) "e = Accept_failed" "Accept_future \<in> set (pending s)"
      "heap s' = heap s" "pending s' = remove1 Accept_future (pending s)" "trace s' = trace s"
  | (closing) h where "e = Data_ready h []" "Wait_future h \<in> set (pending s)"
      "heap s' = heap s" "pending s' = remove1 (Wait_future h) (pending s)"
      "trace s' = trace s @ [Read h [], Close_write h]"
  | (echoing) h p where "e = Data_ready h p" "p \<noteq> []" "Wait_future h \<in> set (pending s)"
      "heap s' = heap s"
      "pending s' = remove1 (Wait_future h) (pending s) @ [Send_future h, Wait_future h]"
      "trace s' = trace s @ [Read h p, Print_read_bytes (length p), Send h p, Wait_for_data h]"
  | (wait_failed) h where "e = Wait_failed h" "Wait_future h \<in> set (pending s)"
      "heap s' = heap s" "pending s' = remove1 (Wait_future h) (pending s)" "trace s' = trace s"
  | (send_resolved) h where "e = Send_done h \<or> e = Send_failed h" "Send_future h \<in> set (pending s)"
      "heap s' = heap s" "pending s' = remove1 (Send_future h) (pending s)" "trace s' = trace s"
proof (cases e)
  case (Accept_ok conn)
  with assms have "Accept_future \<in> set (pending s)" by (auto split: if_splits)
  with assms Accept_ok show ?thesis
    using accept_ok [of conn] deliver_Accept_ok [of s conn] by auto
next
  case Accept_failed
  with assms have "Accept_future \<in> set (pending s)" by (auto split: if_splits)
  with assms Accept_failed show ?thesis
    using accept_failed deliver_Accept_failed [of s] by auto
next
  case (Data_ready h p)
  with assms have *: "Wait_future h \<in> set (pending s)" by (auto split: if_splits)
  show ?thesis
  proof (cases "p = []")
    case True
    with assms Data_ready * show ?thesis
      using closing [of h] deliver_Data_ready_empty [of h s] by auto
  next
    case False
    with assms Data_ready * show ?thesis
      using echoing [of h p] deliver_Data_ready_nonempty [of h s p] by auto
  qed
next
  case (Wait_failed h)
  with assms have "Wait_future h \<in> set (pending s)" by (auto split: if_splits)
  with assms Wait_failed show ?thesis
    using wait_failed [of h] deliver_Wait_failed [of h s] by auto
next
  case (Send_done h)
  with assms have "Send_future h \<in> set (pending s)" by (auto split: if_splits)
  with assms Send_done show ?thesis
    using send_resolved [of h] deliver_Send_done [of h s] by auto
next
  case (Send_failed h)
  with assms have "Send_future h \<in> set (pending s)" by (auto split: if_splits)
  with assms Send_failed show ?thesis
    using send_resolved [of h] deliver_Send_failed [of h s] by auto
qed

lemma serialized_main_started: "serialized main_started"
  by (simp add: serialized_def main_started_def tcp_test_run_def)

lemma serialized_deliver:
  assumes "serialized s" "deliver s e = Some s'"
  shows "serialized s'"
  using assms(2)
proof (cases rule: deliver_cases)
  case (accept_ok conn)
  have "Wait_future (length (heap s)) \<notin> set (pending s)"
    using assms(1) by (auto simp: serialized_def)
  then show ?thesis
    using assms(1) accept_ok
    by (auto simp: serialized_def count_list_remove1 less_Suc_eq dest: notin_set_remove1)
next
  case (echoing h p)
  then show ?thesis
    using assms(1)
    by (auto simp: serialized_def count_list_remove1 dest: notin_set_remove1)
qed (use assms(1) in \<open>auto simp: serialized_def count_list_remove1 dest: notin_set_remove1\<close>)

lemma serialized_exec:
  "serialized s \<Longrightarrow> exec s evs = Some s' \<Longrightarrow> serialized s'"
  by (induction evs arbitrary: s) (auto split: option.splits dest: serialized_deliver)

lemma exec_append:
  "exec s (es @ fs) = (case exec s es of None \<Rightarrow> None | Some s' \<Rightarrow> exec s' fs)"
  by (induction es arbitrary: s) (auto split: option.splits)


subsection \<open>Executions\<close>

lemma heap_deliver:
  assumes "deliver s e = Some s'" "h < length (heap s)"
  shows "h < length (heap s') \<and> heap s' ! h = heap s ! h"
  using assms(1) by (cases rule: deliver_cases) (use assms(2) in \<open>auto simp: nth_append\<close>)

lemma heap_exec:
  "exec s evs = Some s' \<Longrightarrow> h < length (heap s) \<Longrightarrow>
   h < length (heap s') \<and> heap s' ! h = heap s ! h"
proof (induction evs arbitrary: s)
  case Nil
  then show ?case by simp
next
  case (Cons e evs)
  from Cons.prems obtain s1 where 1: "deliver s e = Some s1" and 2: "exec s1 evs = Some s'"
    by (auto split: option.splits)
  from heap_deliver [OF 1 Cons.prems(2)] Cons.IH [OF 2] show ?case by simp
qed

lemma finished_deliver:
  assumes "deliver s e = Some s'" "finished h s"
  shows "finished h s' \<and> filter (on_conn h) (trace s') = filter (on_conn h) (trace s)"
  using assms(1)
  by (cases rule: deliver_cases)
     (use assms(2) in \<open>auto simp: finished_def dest: notin_set_remove1\<close>)

lemma finished_exec:
  "exec s evs = Some s' \<Longrightarrow> finished h s \<Longrightarrow>
   finished h s' \<and> filter (on_conn h) (trace s') = filter (on_conn h) (trace s)"
proof (induction evs arbitrary: s)
  case Nil
  then show ?case by simp
next
  case (Cons e evs)
  from Cons.prems obtain s1 where 1: "deliver s e = Some s1" and 2: "exec s1 evs = Some s'"
    by (auto split: option.splits)
  from finished_deliver [OF 1 Cons.prems(2)] Cons.IH [OF 2] show ?case by simp
qed

lemma accept_stopped_deliver:
  assumes "deliver s e = Some s'" "Accept_future \<notin> set (pending s)"
  shows "Accept_future \<notin> set (pending s') \<and> heap s' = heap s \<and>
         count_list (trace s') Accept = count_list (trace s) Accept"
  using assms(1)
  by (cases rule: deliver_cases) (use assms(2) in \<open>auto dest: notin_set_remove1\<close>)

lemma accept_stopped_exec:
  "exec s evs = Some s' \<Longrightarrow> Accept_future \<notin> set (pending s) \<Longrightarrow>
   Accept_future \<notin> set (pending s') \<and> heap s' = heap s \<and>
   count_list (trace s') Accept = count_list (trace s) Accept"
proof (induction evs arbitrary: s)
  case Nil
  then show ?case by simp
next
  case (Cons e evs)
  from Cons.prems obtain s1 where 1: "deliver s e = Some s1" and 2: "exec s1 evs = Some s'"
    by (auto split: option.splits)
  from accept_stopped_deliver [OF 1 Cons.prems(2)] Cons.IH [OF 2] show ?case by simp
qed

lemma sent_append: "sent h (t @ u) = sent h t @ sent h u"
  by (induction h t rule: sent.induct) auto

lemma received_append: "received h (t @ u) = received h t @ received h u"
  by (induction h t rule: received.induct) auto

lemma echo_deliver:
  assumes "deliver s e = Some s'"
    "sent h (trace s) = filter (\<lambda>p. p \<noteq> []) (received h (trace s))"
  shows "sent h (trace s') = filter (\<lambda>p. p \<noteq> []) (received h (trace s'))"
  using assms(1)
  by (cases rule: deliver_cases) (use assms(2) in \<open>auto simp: sent_append received_append\<close>)

lemma echo_exec:
  "exec s evs = Some s' \<Longrightarrow>
   sent h (trace s) = filter (\<lambda>p. p \<noteq> []) (received h (trace s)) \<Longrightarrow>
   sent h (trace s') = filter (\<lambda>p. p \<noteq> []) (received h (trace s'))"
proof (induction evs arbitrary: s)
  case Nil
  then show ?case by simp
next
  case (Cons e evs)
  from Cons.prems obtain s1 where 1: "deliver s e = Some s1" and 2: "exec s1 evs = Some s'"
    by (auto split: option.splits)
  from echo_deliver [OF 1 Cons.prems(2)] Cons.IH [OF 2] show ?case by simp
qed

lemma nonempty_sends_deliver:
  assumes "deliver s e = Some s'" "\<forall>h p. Send h p \<in> set (trace s) \<longrightarrow> p \<noteq> []"
  shows "\<forall>h p. Send h p \<in> set (trace s') \<longrightarrow> p \<noteq> []"
  using assms(1)
  by (cases rule: deliver_cases) (use assms(2) in auto)

lemma nonempty_sends_exec:
  "exec s evs = Some s' \<Longrightarrow> \<forall>h p. Send h p \<in> set (trace s) \<longrightarrow> p \<noteq> [] \<Longrightarrow>
   \<forall>h p. Send h p \<in> set (trace s') \<longrightarrow> p \<noteq> []"
proof (induction evs arbitrary: s)
  case Nil
  then show ?case by simp
next
  case (Cons e evs)
  from Cons.prems obtain s1 where 1: "deliver s e = Some s1" and 2: "exec s1 evs = Some s'"
    by (auto split: option.splits)
  from nonempty_sends_deliver [OF 1 Cons.prems(2)] Cons.IH [OF 2] show ?case by simp
qed

lemma sends_main_started: "\<forall>h p. Send h p \<in> set (trace main_started) \<longrightarrow> p \<noteq> []"
  by (simp add: main_started_def tcp_test_run_def)

lemma echo_main_started:
  "sent h (trace main_started) = filter (\<lambda>p. p \<noteq> []) (received h (trace main_started))"
  by (simp add: main_started_def tcp_test_run_def)

lemma echo_ordered_append:
  assumes "echo_ordered t" "\<forall>h p. Send h p \<notin> set b"
  shows "echo_ordered (t @ b)"
  unfolding echo_ordered_def
proof (intro allI impI, elim conjE)
  fix i h p
  assume i: "i < length (t @ b)" and s: "(t @ b) ! i = Send h p"
  have "i < length t"
  proof (rule ccontr)
    assume "\<not> i < length t"
    with i s have "b ! (i - length t) = Send h p" "i - length t < length b"
      by (auto simp: nth_append)
    then have "Send h p \<in> set b"
      by (metis nth_mem)
    with assms(2) show False by blast
  qed
  with s have "t ! i = Send h p"
    by (simp add: nth_append)
  with assms(1) \<open>i < length t\<close> have
    "2 \<le> i \<and> t ! (i - 2) = Read h p \<and> t ! (i - 1) = Print_read_bytes (length p) \<and>
     Suc i < length t \<and> t ! Suc i = Wait_for_data h"
    unfolding echo_ordered_def by blast
  moreover from \<open>i < length t\<close> have "i - 2 < length t" "i - 1 < length t"
    by simp_all
  ultimately show "2 \<le> i \<and> (t @ b) ! (i - 2) = Read h p \<and>
      (t @ b) ! (i - 1) = Print_read_bytes (length p) \<and>
      Suc i < length (t @ b) \<and> (t @ b) ! Suc i = Wait_for_data h"
    by (simp add: nth_append)
qed

lemma echo_ordered_echo:
  assumes "echo_ordered t"
  shows "echo_ordered (t @ [Read h p, Print_read_bytes (length p), Send h p, Wait_for_data h])"
    (is "echo_ordered (t @ ?b)")
  unfolding echo_ordered_def
proof (intro allI impI, elim conjE)
  fix i h' p'
  assume i: "i < length (t @ ?b)" and s: "(t @ ?b) ! i = Send h' p'"
  show "2 \<le> i \<and> (t @ ?b) ! (i - 2) = Read h' p' \<and>
      (t @ ?b) ! (i - 1) = Print_read_bytes (length p') \<and>
      Suc i < length (t @ ?b) \<and> (t @ ?b) ! Suc i = Wait_for_data h'"
  proof (cases "i < length t")
    case True
    with s have "t ! i = Send h' p'"
      by (simp add: nth_append)
    with assms True have
      "2 \<le> i \<and> t ! (i - 2) = Read h' p' \<and> t ! (i - 1) = Print_read_bytes (length p') \<and>
       Suc i < length t \<and> t ! Suc i = Wait_for_data h'"
      unfolding echo_ordered_def by blast
    moreover from True have "i - 2 < length t" "i - 1 < length t"
      by simp_all
    ultimately show ?thesis
      by (simp add: nth_append)
  next
    case False
    then obtain k where k: "i = length t + k"
      by (metis le_add_diff_inverse not_less)
    with i have "k < 4" by simp
    then consider "k = 0" | "k = 1" | "k = 2" | "k = 3"
      by linarith
    then show ?thesis
    proof cases
      case 3
      with s k show ?thesis
        by (simp add: nth_append)
    qed (use s k in \<open>simp_all add: nth_append\<close>)
  qed
qed

lemma echo_ordered_deliver:
  assumes "deliver s e = Some s'" "echo_ordered (trace s)"
  shows "echo_ordered (trace s')"
  using assms(1)
proof (cases rule: deliver_cases)
  case (echoing h p)
  then show ?thesis
    using echo_ordered_echo [OF assms(2)] by simp
next
  case (accept_ok conn)
  then show ?thesis
    using echo_ordered_append [OF assms(2), of "[Wait_for_data (length (heap s)), Accept]"]
    by simp
next
  case (closing h)
  then show ?thesis
    using echo_ordered_append [OF assms(2), of "[Read h [], Close_write h]"] by simp
qed (use assms(2) in simp_all)

lemma echo_ordered_exec:
  "exec s evs = Some s' \<Longrightarrow> echo_ordered (trace s) \<Longrightarrow> echo_ordered (trace s')"
proof (induction evs arbitrary: s)
  case Nil
  then show ?case by simp
next
  case (Cons e evs)
  from Cons.prems obtain s1 where 1: "deliver s e = Some s1" and 2: "exec s1 evs = Some s'"
    by (auto split: option.splits)
  from echo_ordered_deliver [OF 1 Cons.prems(2)] Cons.IH [OF 2] show ?case by simp
qed

lemma echo_ordered_main_started: "echo_ordered (trace main_started)"
  by (simp add: echo_ordered_def main_started_def tcp_test_run_def nth_Cons')

lemma accept_many:
  "Accept_future \<in> set (pending s) \<Longrightarrow>
   \<exists>s'. exec s (map Accept_ok conns) = Some s' \<and>
        heap s' = heap s @ map (\<lambda>c. \<lparr>tcp_conn = c\<rparr>) conns \<and>
        Accept_future \<in> set (pending s') \<and>
        set (pending s) \<subseteq> set (pending s') \<and>
        (\<forall>h. length (heap s) \<le> h \<and> h < length (heap s) + length conns \<longrightarrow>
           Wait_future h \<in> set (pending s'))"
proof (induction conns arbitrary: s)
  case Nil
  then show ?case by auto
next
  case (Cons c conns)
  let ?s1 = "\<lparr>heap = heap s @ [\<lparr>tcp_conn = c\<rparr>],
           pending = remove1 Accept_future (pending s) @ [Wait_future (length (heap s)), Accept_future],
           trace = trace s @ [Wait_for_data (length (heap s)), Accept]\<rparr>"
  have d: "deliver s (Accept_ok c) = Some ?s1"
    using Cons.prems by (rule deliver_Accept_ok)
  have sub: "set (pending s) \<subseteq> set (pending ?s1)"
    by auto (metis in_set_remove1)
  have "Accept_future \<in> set (pending ?s1)" by simp
  from Cons.IH [OF this] obtain s' where s':
    "exec ?s1 (map Accept_ok conns) = Some s'"
    "heap s' = heap ?s1 @ map (\<lambda>c. \<lparr>tcp_conn = c\<rparr>) conns"
    "Accept_future \<in> set (pending s')"
    "set (pending ?s1) \<subseteq> set (pending s')"
    "\<forall>h. length (heap ?s1) \<le> h \<and> h < length (heap ?s1) + length conns \<longrightarrow>
           Wait_future h \<in> set (pending s')"
    by blast
  have "Wait_future h \<in> set (pending s')"
    if "length (heap s) \<le> h" "h < length (heap s) + length (c # conns)" for h
  proof (cases "h = length (heap s)")
    case True
    then show ?thesis using s'(4) by auto
  next
    case False
    with that s'(5) show ?thesis by simp
  qed
  with d s' sub show ?case
    by (intro exI [of _ s']) auto
qed

lemma accept_pending_deliver:
  assumes "deliver s e = Some s'" "Accept_future \<in> set (pending s)" "e \<noteq> Accept_failed"
  shows "Accept_future \<in> set (pending s')"
  using assms(1)
  by (cases rule: deliver_cases) (use assms(2,3) in \<open>auto simp: in_set_remove1\<close>)

lemma accept_pending_exec:
  "exec s evs = Some s' \<Longrightarrow> Accept_future \<in> set (pending s) \<Longrightarrow>
   Accept_failed \<notin> set evs \<Longrightarrow> Accept_future \<in> set (pending s')"
proof (induction evs arbitrary: s)
  case Nil
  then show ?case by simp
next
  case (Cons e evs)
  from Cons.prems obtain s1 where 1: "deliver s e = Some s1" and 2: "exec s1 evs = Some s'"
    by (auto split: option.splits)
  from Cons.prems have "e \<noteq> Accept_failed" "Accept_failed \<notin> set evs"
    by auto
  with accept_pending_deliver [OF 1 Cons.prems(2)] Cons.IH [OF 2] show ?case
    by simp
qed

lemma accept_pending_main_started: "Accept_future \<in> set (pending main_started)"
  by (simp add: main_started_def tcp_test_run_def)

section \<open>The claims\<close>

text \<open>
  C1. Echo fidelity. In every state the service can reach, when the wait of the handler at
  \<open>h\<close> resolves and its \<^verbatim>\<open>read()\<close> returns a non-empty packet \<open>B\<close>, the
  continuation issues exactly one \<^verbatim>\<open>send\<close>, on the same handler's connection, of
  exactly \<open>B\<close>, whatever its bytes; over the whole execution the packets sent on a
  connection are the non-empty packets read from it, in the same order.
\<close>

theorem echo_fidelity:
  assumes "exec main_started evs = Some s" "Wait_future h \<in> set (pending s)" "B \<noteq> []"
  shows "\<exists>s'. deliver s (Data_ready h B) = Some s' \<and>
           trace s' = trace s @ [Read h B, Print_read_bytes (length B), Send h B, Wait_for_data h] \<and>
           heap s' = heap s \<and>
           sent h (trace s') = sent h (trace s) @ [B] \<and>
           sent h (trace s') = filter (\<lambda>p. p \<noteq> []) (received h (trace s'))"
proof -
  let ?s' = "\<lparr>heap = heap s,
           pending = remove1 (Wait_future h) (pending s) @ [Send_future h, Wait_future h],
           trace = trace s @ [Read h B, Print_read_bytes (length B), Send h B, Wait_for_data h]\<rparr>"
  have d: "deliver s (Data_ready h B) = Some ?s'"
    using assms(2,3) by (rule deliver_Data_ready_nonempty)
  have "exec main_started (evs @ [Data_ready h B]) = Some ?s'"
    using assms(1) d by (simp add: exec_append)
  from echo_exec [OF this echo_main_started]
  have "sent h (trace ?s') = filter (\<lambda>p. p \<noteq> []) (received h (trace ?s'))" .
  with d show ?thesis
    by (intro exI [of _ ?s']) (simp add: sent_append)
qed

theorem echo_fidelity_witness:
  "exec main_started [Accept_ok 7] = Some one_conn
   \<and> Wait_future 0 \<in> set (pending one_conn)
   \<and> ping \<noteq> []
   \<and> deliver one_conn (Data_ready 0 ping) = Some echoed
   \<and> sent 0 (trace echoed) = [ping]
   \<and> received 0 (trace echoed) = [ping]"
proof -
  have e: "exec main_started [Accept_ok 7] = Some one_conn"
    by (simp add: run_simps)
  have w: "Wait_future 0 \<in> set (pending one_conn)"
    by simp
  have n: "ping \<noteq> []"
    by simp
  have d: "deliver one_conn (Data_ready 0 ping) = Some echoed"
    by (simp add: run_simps)
  from echo_fidelity [OF e w n] d
  have "sent 0 (trace echoed) = sent 0 (trace one_conn) @ [ping]"
    by (metis option.inject)
  with e w n d show ?thesis
    by simp
qed

text \<open>
  C2. Termination on stream end. In every state the service can reach, when the wait of the
  handler at \<open>h\<close> resolves and its \<^verbatim>\<open>read()\<close> returns an empty packet, the
  continuation calls \<^verbatim>\<open>close_write\<close> and returns; whatever happens afterwards, the
  program makes no further call on that connection (no wait, read, send or close), and no
  event for the handler can be delivered any more.
\<close>

theorem stream_end_closes:
  assumes "exec main_started evs = Some s" "Wait_future h \<in> set (pending s)"
  shows "\<exists>s'. deliver s (Data_ready h []) = Some s' \<and>
           trace s' = trace s @ [Read h [], Close_write h] \<and>
           (\<forall>evs' s''. exec s' evs' = Some s'' \<longrightarrow>
              filter (on_conn h) (trace s'') = filter (on_conn h) (trace s') \<and>
              deliver s'' (Wait_failed h) = None \<and>
              (\<forall>p. deliver s'' (Data_ready h p) = None))"
proof -
  let ?s' = "\<lparr>heap = heap s, pending = remove1 (Wait_future h) (pending s),
             trace = trace s @ [Read h [], Close_write h]\<rparr>"
  have d: "deliver s (Data_ready h []) = Some ?s'"
    using assms(2) by (rule deliver_Data_ready_empty)
  have ser: "serialized s"
    using serialized_exec [OF serialized_main_started assms(1)] .
  then have "count_list (pending s) (Wait_future h) \<le> 1" "h < length (heap s)"
    using assms(2) by (auto simp: serialized_def)
  then have fin: "finished h ?s'"
    using assms(2) by (simp add: finished_def flip: count_list_0_iff add: count_list_remove1)
  have "filter (on_conn h) (trace s'') = filter (on_conn h) (trace ?s') \<and>
        deliver s'' (Wait_failed h) = None \<and> (\<forall>p. deliver s'' (Data_ready h p) = None)"
    if "exec ?s' evs' = Some s''" for evs' s''
    using finished_exec [OF that fin] by (simp add: finished_def)
  with d show ?thesis
    by (intro exI [of _ ?s']) simp
qed

theorem stream_end_closes_witness:
  "exec main_started [Accept_ok 7] = Some one_conn
   \<and> Wait_future 0 \<in> set (pending one_conn)
   \<and> deliver one_conn (Data_ready 0 []) = Some closed
   \<and> exec closed [Accept_ok 9, Data_ready 1 ping] = Some closed_next
   \<and> filter (on_conn 0) (trace closed_next) = [Wait_for_data 0, Read 0 [], Close_write 0]
   \<and> deliver closed_next (Data_ready 0 ping) = None"
proof -
  have e: "exec main_started [Accept_ok 7] = Some one_conn"
    by (simp add: run_simps)
  have w: "Wait_future 0 \<in> set (pending one_conn)"
    by simp
  have d: "deliver one_conn (Data_ready 0 []) = Some closed"
    by (simp add: run_simps)
  have x: "exec closed [Accept_ok 9, Data_ready 1 ping] = Some closed_next"
    by (simp add: run_simps)
  from stream_end_closes [OF e w] d x
  have "filter (on_conn 0) (trace closed_next) = filter (on_conn 0) (trace closed) \<and>
        deliver closed_next (Data_ready 0 ping) = None"
    by (metis option.inject)
  with e w d x show ?thesis
    by simp
qed

text \<open>
  C3. Unbounded acceptance. In every state the service can reach without an
  \<^verbatim>\<open>accept\<close> having failed, whatever the handlers have done, an \<^verbatim>\<open>accept\<close> is
  pending; when it resolves with a connection, the continuation allocates a new handler
  holding that connection, starts it (its \<^verbatim>\<open>wait_for_data\<close> is issued and left
  pending, not awaited) and calls \<^verbatim>\<open>run()\<close> again, so an \<^verbatim>\<open>accept\<close> is pending
  again; handlers that were waiting still are. Nothing is asked of the handlers already
  there: any number of connections can be accepted in a row, every one of their handlers
  still waiting.
\<close>

theorem accept_spawns_and_rearms:
  assumes "exec main_started evs = Some s" "Accept_failed \<notin> set evs"
  shows "(\<exists>s'. deliver s (Accept_ok conn) = Some s' \<and>
            heap s' = heap s @ [\<lparr>tcp_conn = conn\<rparr>] \<and>
            trace s' = trace s @ [Wait_for_data (length (heap s)), Accept] \<and>
            Wait_future (length (heap s)) \<in> set (pending s') \<and>
            Accept_future \<in> set (pending s') \<and>
            (\<forall>h. Wait_future h \<in> set (pending s) \<longrightarrow> Wait_future h \<in> set (pending s'))) \<and>
         (\<exists>s'. exec s (map Accept_ok conns) = Some s' \<and>
            heap s' = heap s @ map (\<lambda>c. \<lparr>tcp_conn = c\<rparr>) conns \<and>
            Accept_future \<in> set (pending s') \<and>
            (\<forall>h. length (heap s) \<le> h \<and> h < length (heap s) + length conns \<longrightarrow>
               Wait_future h \<in> set (pending s')))"
proof
  have a: "Accept_future \<in> set (pending s)"
    using accept_pending_exec [OF assms(1) accept_pending_main_started assms(2)] .
  let ?s' = "\<lparr>heap = heap s @ [\<lparr>tcp_conn = conn\<rparr>],
           pending = remove1 Accept_future (pending s) @ [Wait_future (length (heap s)), Accept_future],
           trace = trace s @ [Wait_for_data (length (heap s)), Accept]\<rparr>"
  have d: "deliver s (Accept_ok conn) = Some ?s'"
    using a by (rule deliver_Accept_ok)
  have "Wait_future h \<in> set (pending ?s')" if "Wait_future h \<in> set (pending s)" for h
    using that by (simp add: in_set_remove1)
  with d show "\<exists>s'. deliver s (Accept_ok conn) = Some s' \<and>
            heap s' = heap s @ [\<lparr>tcp_conn = conn\<rparr>] \<and>
            trace s' = trace s @ [Wait_for_data (length (heap s)), Accept] \<and>
            Wait_future (length (heap s)) \<in> set (pending s') \<and>
            Accept_future \<in> set (pending s') \<and>
            (\<forall>h. Wait_future h \<in> set (pending s) \<longrightarrow> Wait_future h \<in> set (pending s'))"
    by (intro exI [of _ ?s']) simp
  from accept_many [OF a, of conns]
  show "\<exists>s'. exec s (map Accept_ok conns) = Some s' \<and>
            heap s' = heap s @ map (\<lambda>c. \<lparr>tcp_conn = c\<rparr>) conns \<and>
            Accept_future \<in> set (pending s') \<and>
            (\<forall>h. length (heap s) \<le> h \<and> h < length (heap s) + length conns \<longrightarrow>
               Wait_future h \<in> set (pending s'))"
    by blast
qed

theorem accept_spawns_and_rearms_witness:
  "exec main_started [Accept_ok 7] = Some one_conn
   \<and> Accept_failed \<notin> set [Accept_ok 7]
   \<and> deliver one_conn (Accept_ok 9) = Some two_conns
   \<and> exec one_conn (map Accept_ok [9, 11]) = Some three_conns"
proof -
  have e: "exec main_started [Accept_ok 7] = Some one_conn"
    by (simp add: run_simps)
  have n: "Accept_failed \<notin> set [Accept_ok 7]"
    by simp
  from accept_spawns_and_rearms [OF e n, of 9 "[9, 11]"] e n show ?thesis
    by (simp add: run_simps)
qed

text \<open>
  C4, as amended. In every state the service can reach, each handler has at most one
  \<^verbatim>\<open>wait_for_data\<close> outstanding, so its reads never overlap. No such bound holds for
  writes: the future of \<^verbatim>\<open>send\<close> is discarded, and the next read and send go ahead
  while earlier sends are unresolved.
\<close>

theorem one_wait_outstanding:
  assumes "exec main_started evs = Some s"
  shows "outstanding s (Wait_future h) \<le> 1"
  using serialized_exec [OF serialized_main_started assms]
  by (simp add: serialized_def outstanding_def)

theorem one_wait_outstanding_witness:
  "exec main_started [Accept_ok 7, Data_ready 0 ping, Data_ready 0 ping] = Some echoed_twice
   \<and> outstanding echoed_twice (Wait_future 0) \<le> 1"
proof -
  have e: "exec main_started [Accept_ok 7, Data_ready 0 ping, Data_ready 0 ping] =
      Some echoed_twice"
    by (simp add: run_simps)
  from one_wait_outstanding [OF e, of 0] e show ?thesis
    by simp
qed

text \<open>
  C4 as stated fails: after two packets on one connection, with neither send resolved, two
  writes of the same handler are outstanding.
\<close>

theorem two_writes_outstanding_counterexample:
  "exec main_started [Accept_ok 7, Data_ready 0 [1], Data_ready 0 [2]] =
     Some \<lparr>heap = [\<lparr>tcp_conn = 7\<rparr>],
            pending = [Accept_future, Send_future 0, Send_future 0, Wait_future 0],
            trace = [Listen 10000, Accept, Wait_for_data 0, Accept,
                     Read 0 [1], Print_read_bytes 1, Send 0 [1], Wait_for_data 0,
                     Read 0 [2], Print_read_bytes 1, Send 0 [2], Wait_for_data 0]\<rparr>
   \<and> outstanding \<lparr>heap = [\<lparr>tcp_conn = 7\<rparr>],
            pending = [Accept_future, Send_future 0, Send_future 0, Wait_future 0],
            trace = [Listen 10000, Accept, Wait_for_data 0, Accept,
                     Read 0 [1], Print_read_bytes 1, Send 0 [1], Wait_for_data 0,
                     Read 0 [2], Print_read_bytes 1, Send 0 [2], Wait_for_data 0]\<rparr>
        (Send_future 0) = 2"
  by (simp add: run_simps outstanding_def)

text \<open>
  C5. Program order. In every state the service can reach, the continuation of a handler
  that has read a non-empty packet \<open>p\<close> makes its calls in this order: the read, which has
  returned \<open>p\<close>, then the send of \<open>p\<close>, then the next \<^verbatim>\<open>wait_for_data\<close>; in the whole
  trace every send stands between its read and the next wait. The next wait is issued with
  the send still unresolved, and the next read goes ahead while it stays so.
\<close>

theorem echo_in_program_order:
  assumes "exec main_started evs = Some s" "Wait_future h \<in> set (pending s)" "p \<noteq> []"
  shows "\<exists>s'. deliver s (Data_ready h p) = Some s' \<and>
           trace s' = trace s @ [Read h p, Print_read_bytes (length p), Send h p, Wait_for_data h] \<and>
           echo_ordered (trace s') \<and>
           outstanding s' (Send_future h) = Suc (outstanding s (Send_future h)) \<and>
           outstanding s' (Wait_future h) = 1 \<and>
           (\<forall>q. \<exists>s''. deliver s' (Data_ready h q) = Some s'' \<and>
                  take (Suc (length (trace s'))) (trace s'') = trace s' @ [Read h q] \<and>
                  Send_future h \<in> set (pending s''))"
proof -
  let ?s' = "\<lparr>heap = heap s,
           pending = remove1 (Wait_future h) (pending s) @ [Send_future h, Wait_future h],
           trace = trace s @ [Read h p, Print_read_bytes (length p), Send h p, Wait_for_data h]\<rparr>"
  have d: "deliver s (Data_ready h p) = Some ?s'"
    using assms(2,3) by (rule deliver_Data_ready_nonempty)
  have "exec main_started (evs @ [Data_ready h p]) = Some ?s'"
    using assms(1) d by (simp add: exec_append)
  from echo_ordered_exec [OF this echo_ordered_main_started]
  have o: "echo_ordered (trace ?s')" .
  have "serialized s"
    using serialized_exec [OF serialized_main_started assms(1)] .
  then have "count_list (pending s) (Wait_future h) \<le> 1"
    by (simp add: serialized_def)
  moreover have "count_list (pending s) (Wait_future h) \<noteq> 0"
    using assms(2) by (simp add: count_list_0_iff)
  ultimately have c: "outstanding ?s' (Send_future h) = Suc (outstanding s (Send_future h))"
    "outstanding ?s' (Wait_future h) = 1"
    by (simp_all add: outstanding_def count_list_remove1)
  have n: "\<exists>s''. deliver ?s' (Data_ready h q) = Some s'' \<and>
                  take (Suc (length (trace ?s'))) (trace s'') = trace ?s' @ [Read h q] \<and>
                  Send_future h \<in> set (pending s'')" for q
  proof (cases "q = []")
    case True
    have "deliver ?s' (Data_ready h []) =
       Some \<lparr>heap = heap ?s', pending = remove1 (Wait_future h) (pending ?s'),
             trace = trace ?s' @ [Read h [], Close_write h]\<rparr>"
      by (rule deliver_Data_ready_empty) simp
    with True show ?thesis
      by (simp add: in_set_remove1 del: deliver.simps)
  next
    case False
    have "deliver ?s' (Data_ready h q) =
       Some \<lparr>heap = heap ?s',
             pending = remove1 (Wait_future h) (pending ?s') @ [Send_future h, Wait_future h],
             trace = trace ?s' @ [Read h q, Print_read_bytes (length q), Send h q, Wait_for_data h]\<rparr>"
      by (rule deliver_Data_ready_nonempty) (simp_all add: False)
    then show ?thesis
      by (simp del: deliver.simps)
  qed
  from d o c n show ?thesis
    by (intro exI [of _ ?s']) (simp del: deliver.simps)
qed

theorem echo_in_program_order_witness:
  "exec main_started [Accept_ok 7] = Some one_conn
   \<and> Wait_future 0 \<in> set (pending one_conn)
   \<and> ping \<noteq> []
   \<and> deliver one_conn (Data_ready 0 ping) = Some echoed
   \<and> outstanding echoed (Send_future 0) = 1
   \<and> outstanding echoed (Wait_future 0) = 1
   \<and> deliver echoed (Data_ready 0 ping) = Some echoed_twice"
proof -
  have e: "exec main_started [Accept_ok 7] = Some one_conn"
    by (simp add: run_simps)
  have w: "Wait_future 0 \<in> set (pending one_conn)"
    by simp
  have n: "ping \<noteq> []"
    by simp
  have d: "deliver one_conn (Data_ready 0 ping) = Some echoed"
    by (simp add: run_simps)
  from echo_in_program_order [OF e w n] d
  have "outstanding echoed (Send_future 0) = Suc (outstanding one_conn (Send_future 0)) \<and>
        outstanding echoed (Wait_future 0) = 1"
    by (metis option.inject)
  with e w n d show ?thesis
    by (simp add: outstanding_def run_simps)
qed

text \<open>
  C6. Accept failure. In every state the service can reach, once the pending
  \<^verbatim>\<open>accept\<close> resolves with an exception, its continuation is skipped: whatever happens
  afterwards, no handler is ever allocated again, \<^verbatim>\<open>accept\<close> is never called again
  (no retry), no \<^verbatim>\<open>accept\<close> is pending, and neither a connection nor a further
  failure can be delivered to the accept loop. This is the sense in which the failure is
  fatal for the service: it never admits a connection again.
\<close>

theorem accept_failure_stops_loop:
  assumes "exec main_started evs = Some s" "deliver s Accept_failed = Some s'"
    "exec s' evs' = Some s''"
  shows "heap s'' = heap s \<and>
         count_list (trace s'') Accept = count_list (trace s) Accept \<and>
         Accept_future \<notin> set (pending s'') \<and>
         deliver s'' (Accept_ok conn) = None \<and> deliver s'' Accept_failed = None"
proof -
  have ser: "serialized s"
    using serialized_exec [OF serialized_main_started assms(1)] .
  from assms(2) have a: "Accept_future \<in> set (pending s)"
    by (auto split: if_splits)
  from assms(2) deliver_Accept_failed [OF a]
  have s': "s' = \<lparr>heap = heap s, pending = remove1 Accept_future (pending s), trace = trace s\<rparr>"
    by (simp del: deliver.simps)
  from ser have "count_list (pending s) Accept_future \<le> 1"
    by (simp add: serialized_def)
  with a have "Accept_future \<notin> set (pending s')"
    by (simp add: s' flip: count_list_0_iff add: count_list_remove1)
  from accept_stopped_exec [OF assms(3) this] show ?thesis
    by (simp add: s')
qed

theorem accept_failure_stops_loop_witness:
  "exec main_started [Accept_ok 7] = Some one_conn
   \<and> deliver one_conn Accept_failed = Some no_accept
   \<and> exec no_accept [Data_ready 0 ping] = Some no_accept_echoed
   \<and> heap no_accept_echoed = heap one_conn
   \<and> count_list (trace no_accept_echoed) Accept = 2
   \<and> deliver no_accept_echoed (Accept_ok 9) = None"
proof -
  have e: "exec main_started [Accept_ok 7] = Some one_conn"
    by (simp add: run_simps)
  have d: "deliver one_conn Accept_failed = Some no_accept"
    by (simp add: run_simps)
  have x: "exec no_accept [Data_ready 0 ping] = Some no_accept_echoed"
    by (simp add: run_simps)
  from accept_failure_stops_loop [OF e d x, of 9] e d x show ?thesis
    by simp
qed

text \<open>
  C7, as amended. In every state the service can reach, when the \<^verbatim>\<open>wait_for_data\<close> of
  the handler at \<open>h\<close> resolves with an exception, its continuation is skipped: nothing is
  called, the heap and every other pending future (the accept loop's and the other
  handlers') are as before, and whatever happens afterwards the program makes no further
  call on that connection (no retry). A \<^verbatim>\<open>send\<close> whose future resolves with an
  exception ends nothing: the future was discarded, so the trace, the heap and every other
  pending future, the handler's own wait among them, are as before.
\<close>

theorem read_failure_ends_handler:
  assumes "exec main_started evs = Some s" "Wait_future h \<in> set (pending s)"
  shows "(\<exists>s'. deliver s (Wait_failed h) = Some s' \<and>
            trace s' = trace s \<and> heap s' = heap s \<and>
            (\<forall>f. f \<noteq> Wait_future h \<longrightarrow> outstanding s' f = outstanding s f) \<and>
            (\<forall>evs' s''. exec s' evs' = Some s'' \<longrightarrow>
               filter (on_conn h) (trace s'') = filter (on_conn h) (trace s))) \<and>
         (\<forall>h'. Send_future h' \<in> set (pending s) \<longrightarrow>
            (\<exists>s'. deliver s (Send_failed h') = Some s' \<and>
               trace s' = trace s \<and> heap s' = heap s \<and>
               (\<forall>f. f \<noteq> Send_future h' \<longrightarrow> outstanding s' f = outstanding s f)))"
proof (intro conjI allI impI)
  let ?s' = "\<lparr>heap = heap s, pending = remove1 (Wait_future h) (pending s), trace = trace s\<rparr>"
  have d: "deliver s (Wait_failed h) = Some ?s'"
    using assms(2) by (rule deliver_Wait_failed)
  have ser: "serialized s"
    using serialized_exec [OF serialized_main_started assms(1)] .
  then have "count_list (pending s) (Wait_future h) \<le> 1" "h < length (heap s)"
    using assms(2) by (auto simp: serialized_def)
  then have fin: "finished h ?s'"
    using assms(2) by (simp add: finished_def flip: count_list_0_iff add: count_list_remove1)
  have "filter (on_conn h) (trace s'') = filter (on_conn h) (trace s)"
    if "exec ?s' evs' = Some s''" for evs' s''
    using finished_exec [OF that fin] by simp
  with d show "\<exists>s'. deliver s (Wait_failed h) = Some s' \<and>
            trace s' = trace s \<and> heap s' = heap s \<and>
            (\<forall>f. f \<noteq> Wait_future h \<longrightarrow> outstanding s' f = outstanding s f) \<and>
            (\<forall>evs' s''. exec s' evs' = Some s'' \<longrightarrow>
               filter (on_conn h) (trace s'') = filter (on_conn h) (trace s))"
    by (intro exI [of _ ?s']) (simp add: outstanding_def count_list_remove1 del: deliver.simps)
next
  fix h'
  assume "Send_future h' \<in> set (pending s)"
  then have "deliver s (Send_failed h') =
     Some \<lparr>heap = heap s, pending = remove1 (Send_future h') (pending s), trace = trace s\<rparr>"
    by (rule deliver_Send_failed)
  then show "\<exists>s'. deliver s (Send_failed h') = Some s' \<and>
               trace s' = trace s \<and> heap s' = heap s \<and>
               (\<forall>f. f \<noteq> Send_future h' \<longrightarrow> outstanding s' f = outstanding s f)"
    by (simp add: outstanding_def count_list_remove1 del: deliver.simps)
qed

theorem read_failure_ends_handler_witness:
  "exec main_started [Accept_ok 7, Data_ready 0 ping] = Some echoed
   \<and> Wait_future 0 \<in> set (pending echoed)
   \<and> deliver echoed (Wait_failed 0) = Some wait_failed
   \<and> exec wait_failed [Accept_ok 9, Send_failed 0] = Some wait_failed_next
   \<and> filter (on_conn 0) (trace wait_failed_next) =
       [Wait_for_data 0, Read 0 ping, Send 0 ping, Wait_for_data 0]
   \<and> deliver echoed (Send_failed 0) = Some send_failed"
proof -
  have e: "exec main_started [Accept_ok 7, Data_ready 0 ping] = Some echoed"
    by (simp add: run_simps)
  have w: "Wait_future 0 \<in> set (pending echoed)"
    by simp
  have d: "deliver echoed (Wait_failed 0) = Some wait_failed"
    by (simp add: run_simps)
  have x: "exec wait_failed [Accept_ok 9, Send_failed 0] = Some wait_failed_next"
    by (simp add: run_simps)
  from read_failure_ends_handler [OF e w] d x
  have "filter (on_conn 0) (trace wait_failed_next) = filter (on_conn 0) (trace echoed)"
    by (metis option.inject)
  with e w d x show ?thesis
    by (simp add: run_simps)
qed

text \<open>
  C7 as stated fails for writes: the send of the first packet fails, and the handler reads
  and echoes the second packet all the same.
\<close>

theorem write_failure_ends_handler_counterexample:
  "exec main_started [Accept_ok 7, Data_ready 0 [1], Send_failed 0, Data_ready 0 [2]] =
     Some \<lparr>heap = [\<lparr>tcp_conn = 7\<rparr>],
            pending = [Accept_future, Send_future 0, Wait_future 0],
            trace = [Listen 10000, Accept, Wait_for_data 0, Accept,
                     Read 0 [1], Print_read_bytes 1, Send 0 [1], Wait_for_data 0,
                     Read 0 [2], Print_read_bytes 1, Send 0 [2], Wait_for_data 0]\<rparr>"
  by (simp add: run_simps)

text \<open>
  C8, as amended. In every state the service can reach, a handler whose read returns an
  empty packet calls \<^verbatim>\<open>close_write\<close> and returns, and no continuation of it is left
  pending. The handler object is not freed: it was allocated with \<^verbatim>\<open>new\<close> and the
  program has no \<^verbatim>\<open>delete\<close>, so whatever happens afterwards it is still on the heap,
  holding its connection.
\<close>

theorem closing_keeps_handler:
  assumes "exec main_started evs = Some s" "Wait_future h \<in> set (pending s)"
  shows "\<exists>s'. deliver s (Data_ready h []) = Some s' \<and>
           trace s' = trace s @ [Read h [], Close_write h] \<and>
           Wait_future h \<notin> set (pending s') \<and>
           heap s' = heap s \<and>
           (\<forall>evs' s''. exec s' evs' = Some s'' \<longrightarrow>
              h < length (heap s'') \<and> heap s'' ! h = heap s ! h)"
proof -
  let ?s' = "\<lparr>heap = heap s, pending = remove1 (Wait_future h) (pending s),
             trace = trace s @ [Read h [], Close_write h]\<rparr>"
  have d: "deliver s (Data_ready h []) = Some ?s'"
    using assms(2) by (rule deliver_Data_ready_empty)
  have ser: "serialized s"
    using serialized_exec [OF serialized_main_started assms(1)] .
  then have c: "count_list (pending s) (Wait_future h) \<le> 1" and l: "h < length (heap s)"
    using assms(2) by (auto simp: serialized_def)
  from c have n: "Wait_future h \<notin> set (pending ?s')"
    using assms(2) by (simp flip: count_list_0_iff add: count_list_remove1)
  have "h < length (heap s'') \<and> heap s'' ! h = heap s ! h"
    if "exec ?s' evs' = Some s''" for evs' s''
    using heap_exec [OF that, of h] l by simp
  with d n show ?thesis
    by (intro exI [of _ ?s']) simp
qed

theorem closing_keeps_handler_witness:
  "exec main_started [Accept_ok 7] = Some one_conn
   \<and> Wait_future 0 \<in> set (pending one_conn)
   \<and> deliver one_conn (Data_ready 0 []) = Some closed
   \<and> exec closed [Accept_ok 9, Data_ready 1 ping] = Some closed_next
   \<and> heap closed_next ! 0 = \<lparr>tcp_conn = 7\<rparr>"
proof -
  have e: "exec main_started [Accept_ok 7] = Some one_conn"
    by (simp add: run_simps)
  have w: "Wait_future 0 \<in> set (pending one_conn)"
    by simp
  have d: "deliver one_conn (Data_ready 0 []) = Some closed"
    by (simp add: run_simps)
  have x: "exec closed [Accept_ok 9, Data_ready 1 ping] = Some closed_next"
    by (simp add: run_simps)
  from closing_keeps_handler [OF e w] d x
  have "heap closed_next ! 0 = heap one_conn ! 0"
    by (metis option.inject)
  with e w d x show ?thesis
    by simp
qed

text \<open>
  C8 as stated fails: after the handler of the only connection has closed, its object is
  still on the heap.
\<close>

theorem closing_releases_counterexample:
  "exec main_started [Accept_ok 7, Data_ready 0 []] =
     Some \<lparr>heap = [\<lparr>tcp_conn = 7\<rparr>], pending = [Accept_future],
            trace = [Listen 10000, Accept, Wait_for_data 0, Accept, Read 0 [], Close_write 0]\<rparr>"
  by (simp add: run_simps)

text \<open>
  C9. No deduplication. When the same non-empty packet \<open>B\<close> is read twice in succession on
  one connection, each read runs the whole cycle again: the handler sends \<open>B\<close> and then
  \<open>B\<close> again.
\<close>

theorem same_payload_twice:
  assumes "Wait_future h \<in> set (pending s)" "B \<noteq> []"
  shows "\<exists>s'. exec s [Data_ready h B, Data_ready h B] = Some s' \<and>
           trace s' = trace s @
             [Read h B, Print_read_bytes (length B), Send h B, Wait_for_data h,
              Read h B, Print_read_bytes (length B), Send h B, Wait_for_data h] \<and>
           sent h (trace s') = sent h (trace s) @ [B, B]"
proof -
  let ?s1 = "\<lparr>heap = heap s,
           pending = remove1 (Wait_future h) (pending s) @ [Send_future h, Wait_future h],
           trace = trace s @ [Read h B, Print_read_bytes (length B), Send h B, Wait_for_data h]\<rparr>"
  let ?s2 = "\<lparr>heap = heap ?s1,
           pending = remove1 (Wait_future h) (pending ?s1) @ [Send_future h, Wait_future h],
           trace = trace ?s1 @ [Read h B, Print_read_bytes (length B), Send h B, Wait_for_data h]\<rparr>"
  have d1: "deliver s (Data_ready h B) = Some ?s1"
    using assms by (rule deliver_Data_ready_nonempty)
  have d2: "deliver ?s1 (Data_ready h B) = Some ?s2"
    by (rule deliver_Data_ready_nonempty) (simp_all add: assms(2))
  from d1 d2 have "exec s [Data_ready h B, Data_ready h B] = Some ?s2"
    by (simp del: deliver.simps)
  then show ?thesis
    by (intro exI [of _ ?s2]) (simp add: sent_append del: exec.simps)
qed

theorem same_payload_twice_witness:
  "Wait_future 0 \<in> set (pending one_conn)
   \<and> ping \<noteq> []
   \<and> exec one_conn [Data_ready 0 ping, Data_ready 0 ping] = Some echoed_twice
   \<and> sent 0 (trace echoed_twice) = [ping, ping]"
proof -
  have w: "Wait_future 0 \<in> set (pending one_conn)"
    by simp
  have n: "ping \<noteq> []"
    by simp
  from same_payload_twice [OF w n] show ?thesis
    by (simp add: run_simps)
qed

text \<open>
  C10. The service never writes a zero-length buffer: in every execution from the start of
  the service, every \<^verbatim>\<open>send\<close> the program has issued, on whichever connection,
  carries a packet of positive length.
\<close>

theorem never_sends_empty:
  assumes "exec main_started evs = Some s" "Send h p \<in> set (trace s)"
  shows "p \<noteq> []"
  using nonempty_sends_exec [OF assms(1) sends_main_started] assms(2) by blast

theorem never_sends_empty_witness:
  "exec main_started [Accept_ok 7, Data_ready 0 ping, Data_ready 0 []] = Some echoed_closed
   \<and> Send 0 ping \<in> set (trace echoed_closed)
   \<and> ping \<noteq> []"
proof -
  have e: "exec main_started [Accept_ok 7, Data_ready 0 ping, Data_ready 0 []] =
      Some echoed_closed"
    by (simp add: run_simps)
  have m: "Send 0 ping \<in> set (trace echoed_closed)"
    by simp
  from never_sends_empty [OF e m] e m show ?thesis
    by simp
qed

end
